theory Spec2Isabelle
  imports Main "HOL-Library.Word"
begin

section \<open>JavaScript values and built-ins used by App.tsx\<close>

text \<open>
  A JavaScript string is a sequence of UTF-16 code units, and \<open>length\<close>, \<open>substring\<close>
  count code units. Numbers that the component handles (page numbers, indices, the window
  width) are integers, far below \<open>2^53\<close>, so they are modelled as \<open>int\<close>.
\<close>

type_synonym js_string = "16 word list"

definition js_lit :: "string \<Rightarrow> js_string" where
  \<comment> \<open>An ASCII string literal of the source, as code units.\<close>
  "js_lit s = map of_char s"

definition js_slice :: "'a list \<Rightarrow> int \<Rightarrow> int \<Rightarrow> 'a list" where
  \<comment> \<open>\<open>Array.prototype.slice(start, end)\<close>: a negative index counts from the end, both
      indices are clamped to the array, and an empty range gives the empty array.\<close>
  "js_slice xs start end =
     (let len = int (length xs);
          k = (if start < 0 then max (len + start) 0 else min start len);
          final = (if end < 0 then max (len + end) 0 else min end len)
      in take (nat (final - k)) (drop (nat k) xs))"

definition js_substring :: "js_string \<Rightarrow> int \<Rightarrow> int \<Rightarrow> js_string" where
  \<comment> \<open>\<open>String.prototype.substring(start, end)\<close>: both indices are clamped to
      \<open>[0, length]\<close> and swapped when start exceeds end.\<close>
  "js_substring s start end =
     (let len = int (length s);
          finalStart = min (max start 0) len;
          finalEnd = min (max end 0) len;
          from = min finalStart finalEnd;
          to = max finalStart finalEnd
      in take (nat (to - from)) (drop (nat from) s))"

definition js_rem :: "int \<Rightarrow> int \<Rightarrow> int" where
  \<comment> \<open>The \<open>%\<close> operator on integers: the remainder takes the sign of the dividend.\<close>
  "js_rem a b = sgn a * (\<bar>a\<bar> mod \<bar>b\<bar>)"

definition js_index :: "'a list \<Rightarrow> int \<Rightarrow> 'a option" where
  \<comment> \<open>\<open>xs[i]\<close>: reading outside the array gives \<open>undefined\<close>, here \<open>None\<close>.\<close>
  "js_index xs i = (if 0 \<le> i \<and> i < int (length xs) then Some (xs ! nat i) else None)"

definition math_ceil_div :: "int \<Rightarrow> int \<Rightarrow> int" where
  \<comment> \<open>\<open>Math.ceil(a / b)\<close> for integers \<open>a\<close> and \<open>b\<close>, \<open>b\<close> positive.\<close>
  "math_ceil_div a b = - ((- a) div b)"

section \<open>The component's state\<close>

record Post =
  post_id :: int
  title :: js_string
  body :: js_string
  userId :: int

record BrowserState =
  posts :: "Post list"
  loading :: bool
  error :: "js_string option"
  currentPage :: int
  isMobile :: bool

definition initialState :: BrowserState where
  \<comment> \<open>The five \<open>useState\<close> initial values.\<close>
  "initialState =
     \<lparr>posts = [], loading = True, error = None, currentPage = 1, isMobile = False\<rparr>"

subsection \<open>Responsive breakpoint detection\<close>

definition checkMobile :: "int \<Rightarrow> BrowserState \<Rightarrow> BrowserState" where
  \<comment> \<open>The argument is \<open>window.innerWidth\<close> at the time of the call.\<close>
  "checkMobile innerWidth st = st\<lparr>isMobile := (innerWidth \<le> 768)\<rparr>"

subsection \<open>Fetching the posts\<close>

datatype thrown = ErrorInstance js_string | NotAnError

record Response =
  ok :: bool
  json :: "thrown + Post list"

definition fetchTry :: "thrown + Response \<Rightarrow> BrowserState \<Rightarrow> thrown + BrowserState" where
  \<comment> \<open>The body of the \<open>try\<close> block after \<open>setLoading(true)\<close>. The first argument is what
      the awaited \<open>fetch\<close> does: it rejects (\<open>Inl\<close>) or resolves to a response, whose
      \<open>json()\<close> in turn rejects or resolves to an array of records.\<close>
  "fetchTry outcome st =
     (case outcome of
        Inl err \<Rightarrow> Inl err
      | Inr response \<Rightarrow>
          if \<not> ok response then Inl (ErrorInstance (js_lit ''Failed to fetch posts''))
          else (case json response of
                  Inl err \<Rightarrow> Inl err
                | Inr data \<Rightarrow> Inr (st\<lparr>posts := js_slice data 0 100\<rparr>)))"

definition fetchPosts :: "thrown + Response \<Rightarrow> BrowserState \<Rightarrow> BrowserState" where
  "fetchPosts outcome st =
     (let st1 = st\<lparr>loading := True\<rparr>;
          st2 = (case fetchTry outcome st1 of
                   Inr st' \<Rightarrow> st'
                 | Inl err \<Rightarrow>
                     st1\<lparr>error := Some (case err of
                                           ErrorInstance message \<Rightarrow> message
                                         | NotAnError \<Rightarrow> js_lit ''An error occurred'')\<rparr>)
      in st2\<lparr>loading := False\<rparr>)"

subsection \<open>Pagination logic\<close>

definition postsPerPage :: "BrowserState \<Rightarrow> int" where
  "postsPerPage st = (if isMobile st then 4 else 8)"

definition totalPagesOf :: "'a list \<Rightarrow> int \<Rightarrow> int" where
  \<comment> \<open>\<open>Math.ceil(posts.length / postsPerPage)\<close>, with the page size as a parameter.\<close>
  "totalPagesOf ps perPage = math_ceil_div (int (length ps)) perPage"

definition currentPostsOf :: "'a list \<Rightarrow> int \<Rightarrow> int \<Rightarrow> 'a list" where
  \<comment> \<open>\<open>startIndex\<close> and \<open>currentPosts\<close>, with the page size and the page as parameters.\<close>
  "currentPostsOf ps perPage page =
     (let startIndex = (page - 1) * perPage
      in js_slice ps startIndex (startIndex + perPage))"

definition totalPages :: "BrowserState \<Rightarrow> int" where
  "totalPages st = totalPagesOf (posts st) (postsPerPage st)"

definition currentPosts :: "BrowserState \<Rightarrow> Post list" where
  "currentPosts st = currentPostsOf (posts st) (postsPerPage st) (currentPage st)"

datatype effect = ScrollToTopSmooth

definition handlePageChange :: "int \<Rightarrow> BrowserState \<Rightarrow> BrowserState \<times> effect list" where
  \<comment> \<open>Returns the new state and the side effects requested on the window.\<close>
  "handlePageChange page st =
     (if page \<ge> 1 \<and> page \<le> totalPages st
      then (st\<lparr>currentPage := page\<rparr>, [ScrollToTopSmooth])
      else (st, []))"

function pushPages :: "int \<Rightarrow> int \<Rightarrow> int list \<Rightarrow> int list" where
  \<comment> \<open>The \<open>for\<close> loop of \<open>getPageNumbers\<close>: \<open>i\<close> runs up to \<open>endPage\<close>.\<close>
  "pushPages i endPage pages =
     (if i \<le> endPage then pushPages (i + 1) endPage (pages @ [i]) else pages)"
  by pat_completeness auto
termination
  by (relation "measure (\<lambda>(i, endPage, pages). nat (endPage + 1 - i))") auto

declare pushPages.simps [simp del]

definition getPageNumbers :: "BrowserState \<Rightarrow> int list" where
  "getPageNumbers st =
     (let maxVisiblePages = (if isMobile st then 3 else 5);
          startPage = max 1 (currentPage st - maxVisiblePages div 2);
          endPage = min (totalPages st) (startPage + maxVisiblePages - 1);
          startPage' = (if endPage - startPage + 1 < maxVisiblePages
                        then max 1 (endPage - maxVisiblePages + 1)
                        else startPage)
      in pushPages startPage' endPage [])"

definition maxVisiblePageButtons :: "BrowserState \<Rightarrow> int" where
  \<comment> \<open>The constant \<open>maxVisiblePages\<close> of \<open>getPageNumbers\<close>, as a function of the state.\<close>
  "maxVisiblePageButtons st = (if isMobile st then 3 else 5)"

subsection \<open>Excerpts and card colours\<close>

definition truncateText :: "js_string \<Rightarrow> int \<Rightarrow> js_string" where
  "truncateText text maxLength =
     (if int (length text) > maxLength
      then js_substring text 0 maxLength @ js_lit ''...''
      else text)"

definition truncateText_default :: "js_string \<Rightarrow> js_string" where
  \<comment> \<open>The call \<open>truncateText(post.body)\<close>: \<open>maxLength\<close> takes its default.\<close>
  "truncateText_default text = truncateText text 120"

definition colors :: "js_string list" where
  "colors = [js_lit ''post-orange'', js_lit ''post-teal'', js_lit ''post-cyan'',
             js_lit ''post-red'', js_lit ''post-purple'', js_lit ''post-brown'']"

definition getPostColorClass :: "int \<Rightarrow> js_string option" where
  "getPostColorClass index = js_index colors (js_rem index (int (length colors)))"

section \<open>Reachable states\<close>

text \<open>
  The events of the component: a resize of the window (also the call of \<open>checkMobile\<close>
  on mount), the completion of the single fetch, which is pending exactly while
  \<open>loading\<close> holds, and a call of \<open>handlePageChange\<close>. The buttons only pass
  particular pages; allowing every integer makes the set of reachable states larger.
\<close>

inductive reachable :: "BrowserState \<Rightarrow> bool" where
  mount: "reachable initialState"
| resize: "reachable st \<Longrightarrow> reachable (checkMobile innerWidth st)"
| fetched: "reachable st \<Longrightarrow> loading st \<Longrightarrow> reachable (fetchPosts outcome st)"
| navigate: "reachable st \<Longrightarrow> reachable (fst (handlePageChange page st))"

section \<open>The properties as the specification words them\<close>

definition visiblePageNumbers_spec :: "int \<Rightarrow> int \<Rightarrow> int \<Rightarrow> int list" where
  \<comment> \<open>The windowing algorithm in the specification's words: centre the start, cap the
      end at the page count, and slide the start left when the window is short.\<close>
  "visiblePageNumbers_spec currentPage' totalPages' maxButtons =
     (let start = max 1 (currentPage' - maxButtons div 2);
          end = min totalPages' (start + maxButtons - 1);
          start' = (if int (length [start..end]) < maxButtons
                    then max 1 (end - maxButtons + 1)
                    else start)
      in [start'..end])"

definition pageInRange :: "BrowserState \<Rightarrow> bool" where
  \<comment> \<open>The specification's invariant on the current page.\<close>
  "pageInRange st =
     (totalPages st \<ge> 1 \<longrightarrow> 1 \<le> currentPage st \<and> currentPage st \<le> totalPages st)"

section \<open>Concrete inputs\<close>

definition samplePost :: "int \<Rightarrow> Post" where
  "samplePost i = \<lparr>post_id = i, title = js_lit ''title'', body = js_lit ''body'', userId = 1\<rparr>"

definition samplePosts :: "nat \<Rightarrow> Post list" where
  \<comment> \<open>A response of \<open>n\<close> records with the ids \<open>1, ..., n\<close>.\<close>
  "samplePosts n = map samplePost [1..int n]"

definition browsing :: "nat \<Rightarrow> int \<Rightarrow> bool \<Rightarrow> BrowserState" where
  \<comment> \<open>The state after a successful fetch of \<open>n\<close> records, on the given page and layout.\<close>
  "browsing n page mobile =
     \<lparr>posts = samplePosts n, loading = False, error = None,
      currentPage = page, isMobile = mobile\<rparr>"

section \<open>Arithmetic of the built-ins\<close>

lemma math_ceil_div_ge: "0 < b \<Longrightarrow> a \<le> math_ceil_div a b * b"
proof -
  assume b: "0 < b"
  have "- a = (- a) div b * b + (- a) mod b" by simp
  moreover have "0 \<le> (- a) mod b" using b by simp
  ultimately have "(- a) div b * b \<le> - a" by linarith
  then show ?thesis by (simp add: math_ceil_div_def)
qed

lemma math_ceil_div_lt: "0 < b \<Longrightarrow> math_ceil_div a b * b < a + b"
proof -
  assume b: "0 < b"
  have "- a = (- a) div b * b + (- a) mod b" by simp
  moreover have "(- a) mod b < b" using b by simp
  ultimately have "- a < (- a) div b * b + b" by linarith
  then show ?thesis by (simp add: math_ceil_div_def)
qed

lemma math_ceil_div_nonneg: "0 < b \<Longrightarrow> 0 \<le> a \<Longrightarrow> 0 \<le> math_ceil_div a b"
  using pos_imp_zdiv_pos_iff [of b "- a"] by (simp add: math_ceil_div_def)

lemma math_ceil_div_pos_iff: "0 < b \<Longrightarrow> 1 \<le> math_ceil_div a b \<longleftrightarrow> 0 < a"
proof -
  assume b: "0 < b"
  have "(- a) div b < 0 \<longleftrightarrow> - a < 0" using b by (simp add: pos_imp_zdiv_neg_iff)
  then show ?thesis by (auto simp add: math_ceil_div_def)
qed

lemma js_slice_take_drop:
  "0 \<le> start \<Longrightarrow> start \<le> end \<Longrightarrow>
   js_slice xs start end = take (nat (end - start)) (drop (nat start) xs)"
  unfolding js_slice_def Let_def
  by (auto simp: min_def max_def)

lemma js_slice_beyond: "int (length xs) \<le> start \<Longrightarrow> js_slice xs start end = []"
  unfolding js_slice_def Let_def
  by (auto simp: min_def max_def)

lemma js_substring_prefix: "js_substring s 0 n = take (nat n) s"
  unfolding js_substring_def Let_def
  by (auto simp: min_def max_def)

lemma js_rem_nonneg: "0 \<le> a \<Longrightarrow> 0 < b \<Longrightarrow> js_rem a b = a mod b"
  by (cases "a = 0") (simp_all add: js_rem_def)

lemma length_js_lit: "length (js_lit s) = length s"
  by (simp add: js_lit_def)

lemma length_colors: "length colors = 6"
  by (simp add: colors_def)

lemma length_samplePosts: "length (samplePosts n) = n"
  by (simp add: samplePosts_def)

section \<open>Page count and page slice\<close>

lemma postsPerPage_pos: "0 < postsPerPage st"
  by (simp add: postsPerPage_def)

lemma totalPages_nonneg: "0 \<le> totalPages st"
  by (simp add: totalPages_def totalPagesOf_def math_ceil_div_nonneg postsPerPage_pos)

lemma totalPages_covers: "int (length (posts st)) \<le> totalPages st * postsPerPage st"
  by (simp add: totalPages_def totalPagesOf_def math_ceil_div_ge postsPerPage_pos)

lemma totalPages_browsing:
  "totalPages (browsing n page mobile) = math_ceil_div (int n) (if mobile then 4 else 8)"
  by (simp add: totalPages_def totalPagesOf_def postsPerPage_def browsing_def
      length_samplePosts)

text \<open>
  C6. When \<open>currentPage\<close> exceeds \<open>totalPages\<close>, the slice of the current page,
  \<open>posts.slice(startIndex, startIndex + postsPerPage)\<close>, is empty.
\<close>

theorem currentPosts_empty_beyond_last_page:
  "currentPage st > totalPages st \<Longrightarrow> currentPosts st = []"
proof -
  assume beyond: "currentPage st > totalPages st"
  have pos: "0 < postsPerPage st" by (rule postsPerPage_pos)
  from beyond have "totalPages st \<le> currentPage st - 1" by simp
  then have "totalPages st * postsPerPage st \<le> (currentPage st - 1) * postsPerPage st"
    using pos by (simp add: mult_right_mono)
  with totalPages_covers [of st]
  have "int (length (posts st)) \<le> (currentPage st - 1) * postsPerPage st" by linarith
  then show ?thesis
    by (simp add: currentPosts_def currentPostsOf_def js_slice_beyond)
qed

theorem currentPosts_empty_beyond_last_page_witness:
  "totalPages (browsing 13 4 False) < currentPage (browsing 13 4 False)
   \<and> currentPosts (browsing 13 4 False) = []"
proof -
  have beyond: "totalPages (browsing 13 4 False) < currentPage (browsing 13 4 False)"
    by (simp add: totalPages_browsing math_ceil_div_def) (simp add: browsing_def)
  show ?thesis
    using beyond currentPosts_empty_beyond_last_page [OF beyond] by simp
qed

section \<open>Page navigation\<close>

text \<open>
  C4. \<open>handlePageChange(n)\<close> leaves the whole state unchanged (and requests no scroll)
  when \<open>n < 1\<close> or \<open>n > totalPages\<close>; for \<open>1 \<le> n \<le> totalPages\<close> it sets
  \<open>currentPage\<close> to \<open>n\<close>, changes no other field and requests the smooth scroll to the top.
\<close>

theorem handlePageChange_frame:
  "(page < 1 \<or> page > totalPages st \<longrightarrow> handlePageChange page st = (st, []))
   \<and> (1 \<le> page \<and> page \<le> totalPages st \<longrightarrow>
        handlePageChange page st = (st\<lparr>currentPage := page\<rparr>, [ScrollToTopSmooth]))"
  by (auto simp: handlePageChange_def)

theorem handlePageChange_frame_witness:
  "handlePageChange 0 (browsing 13 1 False) = (browsing 13 1 False, [])
   \<and> handlePageChange 3 (browsing 13 1 False) = (browsing 13 1 False, [])
   \<and> handlePageChange 2 (browsing 13 1 False) = (browsing 13 2 False, [ScrollToTopSmooth])"
proof -
  have pages: "totalPages (browsing 13 1 False) = 2"
    by (simp add: totalPages_browsing math_ceil_div_def)
  have moved: "(browsing 13 1 False)\<lparr>currentPage := 2\<rparr> = browsing 13 2 False"
    by (simp add: browsing_def)
  show ?thesis
    using handlePageChange_frame [of 0 "browsing 13 1 False"]
      handlePageChange_frame [of 3 "browsing 13 1 False"]
      handlePageChange_frame [of 2 "browsing 13 1 False"]
    by (simp add: pages moved)
qed

section \<open>Excerpts and card colours\<close>

text \<open>
  C9. For every text and every limit, \<open>truncateText\<close> returns the text unchanged when it
  has at most \<open>limit\<close> code units, and otherwise its first \<open>limit\<close> code units followed
  by the three code units of \<open>...\<close>; the limit defaults to 120, and a text of length 150
  with limit 120 gives a result of length 123.
\<close>

theorem truncateText_spec:
  "(int (length text) \<le> limit \<longrightarrow> truncateText text limit = text)
   \<and> (limit < int (length text) \<longrightarrow>
        truncateText text limit = take (nat limit) text @ js_lit ''...'')
   \<and> length (js_lit ''...'') = 3
   \<and> truncateText_default text = truncateText text 120
   \<and> (length text = 150 \<longrightarrow> length (truncateText text 120) = 123)"
  by (simp add: truncateText_def truncateText_default_def js_substring_prefix length_js_lit)

theorem truncateText_spec_witness:
  "int (length (js_lit ''short'')) \<le> 120
   \<and> truncateText (js_lit ''short'') 120 = js_lit ''short''
   \<and> 120 < int (length (replicate 150 (97 :: 16 word)))
   \<and> truncateText (replicate 150 97) 120 = replicate 120 97 @ js_lit ''...''
   \<and> length (truncateText (replicate 150 97) 120) = 123"
  using truncateText_spec [of "js_lit ''short''" 120]
    truncateText_spec [of "replicate 150 97" 120]
  by (simp add: length_js_lit)

text \<open>
  C10. For every index \<open>\<ge> 0\<close>, \<open>getPostColorClass\<close> reads the palette inside its bounds:
  the result is the defined entry at position \<open>index mod 6\<close> of the six colours, and
  the colour of \<open>index + 6\<close> is the colour of \<open>index\<close>.
\<close>

theorem getPostColorClass_cycles:
  "0 \<le> index \<Longrightarrow>
   getPostColorClass index = Some (colors ! (nat index mod 6))
   \<and> nat index mod 6 < length colors
   \<and> length colors = 6
   \<and> getPostColorClass (index + 6) = getPostColorClass index"
proof -
  assume nonneg: "0 \<le> index"
  have rem: "js_rem index 6 = index mod 6" "js_rem (index + 6) 6 = index mod 6"
    using nonneg by (simp_all add: js_rem_nonneg)
  have idx: "nat (index mod 6) = nat index mod 6"
    using nonneg by (simp add: nat_mod_distrib)
  show ?thesis
    by (simp add: getPostColorClass_def length_colors rem js_index_def idx)
qed

theorem getPostColorClass_cycles_witness:
  "(0::int) \<le> 7
   \<and> getPostColorClass 7 = Some (js_lit ''post-teal'')
   \<and> getPostColorClass 13 = getPostColorClass 7"
proof -
  have nonneg: "(0::int) \<le> 7" by simp
  have entry: "colors ! Suc 0 = js_lit ''post-teal''"
    by (simp add: colors_def)
  show ?thesis
    using getPostColorClass_cycles [OF nonneg] by (simp add: entry)
qed

section \<open>The page-number window\<close>

lemma browsing_fields:
  "currentPage (browsing n page mobile) = page"
  "isMobile (browsing n page mobile) = mobile"
  "posts (browsing n page mobile) = samplePosts n"
  "loading (browsing n page mobile) = False"
  by (simp_all add: browsing_def)

lemma maxVisiblePageButtons_browsing:
  "maxVisiblePageButtons (browsing n page mobile) = (if mobile then 3 else 5)"
  by (simp add: maxVisiblePageButtons_def browsing_fields)

lemma pushPages_upto: "pushPages i endPage pages = pages @ [i..endPage]"
proof (induction i endPage pages rule: pushPages.induct)
  case (1 i endPage pages)
  show ?case
  proof (cases "i \<le> endPage")
    case True
    then have "[i..endPage] = i # [i + 1..endPage]"
      by (simp add: upto_rec1)
    with True 1 show ?thesis
      by (subst pushPages.simps) simp
  next
    case False
    then show ?thesis
      by (subst pushPages.simps) simp
  qed
qed

lemma maxVisiblePageButtons_cases:
  "maxVisiblePageButtons st = 3 \<or> maxVisiblePageButtons st = 5"
  by (simp add: maxVisiblePageButtons_def)

lemma getPageNumbers_upto:
  "getPageNumbers st =
     (let m = maxVisiblePageButtons st;
          s = max 1 (currentPage st - m div 2);
          e = min (totalPages st) (s + m - 1)
      in [(if e - s + 1 < m then max 1 (e - m + 1) else s)..e])"
  unfolding getPageNumbers_def maxVisiblePageButtons_def pushPages_upto Let_def
  by (rule trans [OF append_Nil refl])

text \<open>
  C5. \<open>getPageNumbers\<close> computes the windowing algorithm of the specification on
  \<open>currentPage\<close>, \<open>totalPages\<close> and \<open>maxVisiblePages\<close>; with ten pages and five
  buttons, page 1 gives \<open>[1..5]\<close>, page 10 gives \<open>[6..10]\<close> and page 5 gives \<open>[3..7]\<close>.
\<close>

theorem getPageNumbers_refines_spec:
  "getPageNumbers st =
     visiblePageNumbers_spec (currentPage st) (totalPages st) (maxVisiblePageButtons st)
   \<and> (totalPages st = 10 \<and> maxVisiblePageButtons st = 5 \<and> currentPage st = 1 \<longrightarrow>
        getPageNumbers st = [1, 2, 3, 4, 5])
   \<and> (totalPages st = 10 \<and> maxVisiblePageButtons st = 5 \<and> currentPage st = 10 \<longrightarrow>
        getPageNumbers st = [6, 7, 8, 9, 10])
   \<and> (totalPages st = 10 \<and> maxVisiblePageButtons st = 5 \<and> currentPage st = 5 \<longrightarrow>
        getPageNumbers st = [3, 4, 5, 6, 7])"
proof -
  have "getPageNumbers st =
     visiblePageNumbers_spec (currentPage st) (totalPages st) (maxVisiblePageButtons st)"
  proof -
    have pos: "0 < maxVisiblePageButtons st"
      by (simp add: maxVisiblePageButtons_def)
    have short: "int (length [s..e]) < maxVisiblePageButtons st
        \<longleftrightarrow> e - s + 1 < maxVisiblePageButtons st" for s e
      using pos by (simp only: length_upto) linarith
    show ?thesis
      unfolding getPageNumbers_upto visiblePageNumbers_spec_def Let_def short ..
  qed
  moreover have "totalPages st = 10 \<and> maxVisiblePageButtons st = 5 \<and> currentPage st = 1 \<longrightarrow>
        getPageNumbers st = [1, 2, 3, 4, 5]"
    by (simp add: getPageNumbers_upto upto_rec1)
  moreover have "totalPages st = 10 \<and> maxVisiblePageButtons st = 5 \<and> currentPage st = 10 \<longrightarrow>
        getPageNumbers st = [6, 7, 8, 9, 10]"
    by (simp add: getPageNumbers_upto upto_rec1)
  moreover have "totalPages st = 10 \<and> maxVisiblePageButtons st = 5 \<and> currentPage st = 5 \<longrightarrow>
        getPageNumbers st = [3, 4, 5, 6, 7]"
    by (simp add: getPageNumbers_upto upto_rec1)
  ultimately show ?thesis by simp
qed

theorem getPageNumbers_refines_spec_witness:
  "totalPages (browsing 80 1 False) = 10
   \<and> maxVisiblePageButtons (browsing 80 1 False) = 5
   \<and> getPageNumbers (browsing 80 1 False) = [1, 2, 3, 4, 5]
   \<and> getPageNumbers (browsing 80 10 False) = [6, 7, 8, 9, 10]
   \<and> getPageNumbers (browsing 80 5 False) = [3, 4, 5, 6, 7]"
proof -
  have pages: "totalPages (browsing 80 page False) = 10" for page
    by (simp add: totalPages_browsing math_ceil_div_def)
  have buttons: "maxVisiblePageButtons (browsing 80 page False) = 5" for page
    by (simp add: maxVisiblePageButtons_browsing)
  show ?thesis
    using getPageNumbers_refines_spec [of "browsing 80 1 False", THEN conjunct2]
      getPageNumbers_refines_spec [of "browsing 80 10 False", THEN conjunct2]
      getPageNumbers_refines_spec [of "browsing 80 5 False", THEN conjunct2]
    by (simp add: pages buttons browsing_fields)
qed

lemma window_bounds:
  fixes m cp tp :: int
  assumes m: "m = 3 \<or> m = 5" and tp: "0 \<le> tp"
  defines "s \<equiv> max 1 (cp - m div 2)"
  defines "e \<equiv> min tp (s + m - 1)"
  defines "s' \<equiv> (if e - s + 1 < m then max 1 (e - m + 1) else s)"
  shows "e - s' + 1 = min m tp" and "1 \<le> cp \<Longrightarrow> cp \<le> tp \<Longrightarrow> s' \<le> cp \<and> cp \<le> e"
    and "1 \<le> s' \<and> e \<le> tp"
  using m tp unfolding s_def e_def s'_def
  by (auto simp: min_def max_def)

text \<open>
  C1, as amended. For every state, \<open>getPageNumbers\<close> returns a strictly ascending run of
  consecutive page numbers of length \<open>min(maxVisiblePages, totalPages)\<close>: every element is
  a page number, between 1 and \<open>totalPages\<close>, and each element is its predecessor plus
  one. The run contains \<open>currentPage\<close> whenever \<open>1 \<le> currentPage \<le> totalPages\<close>.
\<close>

theorem getPageNumbers_window:
  "int (length (getPageNumbers st)) = min (maxVisiblePageButtons st) (totalPages st)
   \<and> sorted_wrt (<) (getPageNumbers st)
   \<and> (\<forall>k. Suc k < length (getPageNumbers st) \<longrightarrow>
          getPageNumbers st ! Suc k = getPageNumbers st ! k + 1)
   \<and> (\<forall>p \<in> set (getPageNumbers st). 1 \<le> p \<and> p \<le> totalPages st)
   \<and> (1 \<le> currentPage st \<and> currentPage st \<le> totalPages st \<longrightarrow>
        currentPage st \<in> set (getPageNumbers st))"
proof -
  define m where "m = maxVisiblePageButtons st"
  define s where "s = max 1 (currentPage st - m div 2)"
  define e where "e = min (totalPages st) (s + m - 1)"
  define s' where "s' = (if e - s + 1 < m then max 1 (e - m + 1) else s)"
  have run: "getPageNumbers st = [s'..e]"
    by (simp add: getPageNumbers_upto Let_def m_def s_def e_def s'_def)
  have m: "m = 3 \<or> m = 5"
    unfolding m_def by (rule maxVisiblePageButtons_cases)
  have len: "e - s' + 1 = min m (totalPages st)"
    unfolding s'_def e_def s_def by (rule window_bounds(1) [OF m totalPages_nonneg])
  have inside: "1 \<le> currentPage st \<Longrightarrow> currentPage st \<le> totalPages st \<Longrightarrow>
      s' \<le> currentPage st \<and> currentPage st \<le> e"
    unfolding s'_def e_def s_def by (rule window_bounds(2) [OF m totalPages_nonneg])
  have ends: "1 \<le> s' \<and> e \<le> totalPages st"
    unfolding s'_def e_def s_def by (rule window_bounds(3) [OF m totalPages_nonneg])
  have nonneg: "0 \<le> min m (totalPages st)"
    using m totalPages_nonneg [of st] by auto
  have "int (length (getPageNumbers st)) = min (maxVisiblePageButtons st) (totalPages st)"
    using len nonneg by (simp add: run m_def)
  moreover have "sorted_wrt (<) (getPageNumbers st)"
    by (simp add: run)
  moreover have "\<forall>k. Suc k < length (getPageNumbers st) \<longrightarrow>
          getPageNumbers st ! Suc k = getPageNumbers st ! k + 1"
    by (auto simp add: run)
  moreover have "\<forall>p \<in> set (getPageNumbers st). 1 \<le> p \<and> p \<le> totalPages st"
    using ends by (auto simp add: run)
  moreover have "1 \<le> currentPage st \<and> currentPage st \<le> totalPages st \<longrightarrow>
        currentPage st \<in> set (getPageNumbers st)"
    using inside by (simp add: run)
  ultimately show ?thesis by blast
qed

theorem getPageNumbers_window_witness:
  "int (length (getPageNumbers (browsing 80 5 False))) = 5
   \<and> sorted_wrt (<) (getPageNumbers (browsing 80 5 False))
   \<and> getPageNumbers (browsing 80 5 False) ! Suc 0 = getPageNumbers (browsing 80 5 False) ! 0 + 1
   \<and> 7 \<in> set (getPageNumbers (browsing 80 5 False))
   \<and> (1::int) \<le> 7 \<and> 7 \<le> totalPages (browsing 80 5 False)
   \<and> 1 \<le> currentPage (browsing 80 5 False)
   \<and> currentPage (browsing 80 5 False) \<le> totalPages (browsing 80 5 False)
   \<and> currentPage (browsing 80 5 False) \<in> set (getPageNumbers (browsing 80 5 False))"
proof -
  note window = getPageNumbers_window [of "browsing 80 5 False"]
  have pages: "totalPages (browsing 80 5 False) = 10"
    by (simp add: totalPages_browsing math_ceil_div_def)
  have buttons: "maxVisiblePageButtons (browsing 80 5 False) = 5"
    by (simp add: maxVisiblePageButtons_browsing)
  have len: "int (length (getPageNumbers (browsing 80 5 False))) = 5"
    using window by (simp add: pages buttons)
  then have "Suc 0 < length (getPageNumbers (browsing 80 5 False))"
    by linarith
  with window have step:
    "getPageNumbers (browsing 80 5 False) ! Suc 0 = getPageNumbers (browsing 80 5 False) ! 0 + 1"
    by blast
  have "getPageNumbers (browsing 80 5 False) = [3..7]"
    by (simp add: getPageNumbers_upto pages buttons browsing_fields)
  then have member: "7 \<in> set (getPageNumbers (browsing 80 5 False))"
    by simp
  with window have last: "(1::int) \<le> 7 \<and> 7 \<le> totalPages (browsing 80 5 False)"
    by blast
  have bounds: "1 \<le> currentPage (browsing 80 5 False)
      \<and> currentPage (browsing 80 5 False) \<le> totalPages (browsing 80 5 False)"
    by (simp add: pages browsing_fields)
  with window have "currentPage (browsing 80 5 False) \<in> set (getPageNumbers (browsing 80 5 False))"
    by blast
  with window len step member last bounds show ?thesis by blast
qed

text \<open>
  The claim C1 as stated asks for \<open>currentPage\<close> in the run whenever \<open>totalPages \<ge> 1\<close>. With
  13 posts on page 4 of the narrow layout, a resize to the wide layout leaves two pages and
  the run \<open>[1, 2]\<close>, which does not contain the current page 4.
\<close>

theorem getPageNumbers_misses_stale_page:
  "1 \<le> totalPages (browsing 13 4 False)
   \<and> currentPage (browsing 13 4 False) \<notin> set (getPageNumbers (browsing 13 4 False))"
proof -
  have pages: "totalPages (browsing 13 4 False) = 2"
    by (simp add: totalPages_browsing math_ceil_div_def)
  have "getPageNumbers (browsing 13 4 False) = [1..2]"
    by (simp add: getPageNumbers_upto pages maxVisiblePageButtons_browsing browsing_fields)
  then show ?thesis
    by (simp add: pages browsing_fields)
qed

section \<open>All pages together\<close>

lemma samplePosts_nonempty: "0 < n \<Longrightarrow> samplePosts n \<noteq> []"
  using length_samplePosts [of n] by auto

lemma currentPostsOf_take_drop:
  assumes "0 < perPage" "1 \<le> page"
  shows "currentPostsOf ps perPage page =
           take (nat perPage) (drop (nat ((page - 1) * perPage)) ps)"
proof -
  have "0 \<le> (page - 1) * perPage"
    using assms by simp
  then show ?thesis
    using assms by (simp add: currentPostsOf_def js_slice_take_drop)
qed

lemma concat_first_pages:
  assumes "0 < perPage"
  shows "concat (map (currentPostsOf ps perPage) [1..int k]) = take (k * nat perPage) ps"
proof (induction k)
  case 0
  show ?case by simp
next
  case (Suc k)
  have split: "[1..int (Suc k)] = [1..int k] @ [int k + 1]"
    using upto_rec2 [of 1 "int (Suc k)"] by (simp add: add.commute)
  have start: "nat ((int k + 1 - 1) * perPage) = k * nat perPage"
    using assms by (simp add: nat_mult_distrib)
  have last: "currentPostsOf ps perPage (int k + 1) =
                take (nat perPage) (drop (k * nat perPage) ps)"
    using currentPostsOf_take_drop [OF assms, of "int k + 1" ps] start by simp
  have "concat (map (currentPostsOf ps perPage) [1..int (Suc k)]) =
          concat (map (currentPostsOf ps perPage) [1..int k])
            @ currentPostsOf ps perPage (int k + 1)"
    by (simp only: split map_append concat_append list.map concat.simps append_Nil2)
  also have "\<dots> = take (k * nat perPage) ps
                    @ take (nat perPage) (drop (k * nat perPage) ps)"
    by (simp only: Suc.IH last)
  also have "\<dots> = take (k * nat perPage + nat perPage) ps"
    by (simp only: take_add)
  also have "k * nat perPage + nat perPage = Suc k * nat perPage"
    by simp
  finally show ?case .
qed

lemma take_drop_nth_range:
  "take n (drop lo xs) = map ((!) xs) [lo..<min (lo + n) (length xs)]"
  by (rule nth_equalityI) auto

text \<open>
  C2. For a non-empty list and a positive page size, the slices of the pages
  \<open>1, ..., totalPages\<close> concatenated in order give exactly the list, so their lengths sum to
  its length; the slice of page \<open>p\<close> holds the elements at the positions from
  \<open>(p - 1) * perPage\<close> up to \<open>p * perPage\<close> (cut at the end of the list), and these ranges of
  positions are disjoint and in order: the range of a page ends where or before the range
  of every later page starts.
\<close>

theorem page_slices_partition:
  assumes nonempty: "ps \<noteq> []" and pos: "0 < perPage"
  shows "concat (map (currentPostsOf ps perPage) [1..totalPagesOf ps perPage]) = ps
    \<and> sum_list (map (\<lambda>p. length (currentPostsOf ps perPage p)) [1..totalPagesOf ps perPage])
        = length ps
    \<and> (\<forall>p. 1 \<le> p \<and> p \<le> totalPagesOf ps perPage \<longrightarrow>
          currentPostsOf ps perPage p =
            map ((!) ps) [nat ((p - 1) * perPage)..<min (nat (p * perPage)) (length ps)])
    \<and> (\<forall>p q. 1 \<le> p \<and> p < q \<longrightarrow>
          min (nat (p * perPage)) (length ps) \<le> nat ((q - 1) * perPage))"
proof -
  define pages where "pages = totalPagesOf ps perPage"
  have pages_nonneg: "0 \<le> pages"
    using pos by (simp add: pages_def totalPagesOf_def math_ceil_div_nonneg)
  have "int (length ps) \<le> pages * perPage"
    using pos by (simp add: pages_def totalPagesOf_def math_ceil_div_ge)
  then have "int (length ps) \<le> int (nat pages * nat perPage)"
    using pages_nonneg pos by simp
  then have covers: "length ps \<le> nat pages * nat perPage"
    by linarith
  have whole: "concat (map (currentPostsOf ps perPage) [1..pages]) = ps"
    using concat_first_pages [OF pos, of ps "nat pages"] pages_nonneg covers by simp
  have "length (concat (map (currentPostsOf ps perPage) [1..pages])) =
          sum_list (map (\<lambda>p. length (currentPostsOf ps perPage p)) [1..pages])"
    by (simp add: length_concat comp_def)
  then have total: "sum_list (map (\<lambda>p. length (currentPostsOf ps perPage p)) [1..pages])
                      = length ps"
    by (simp add: whole)
  have range: "currentPostsOf ps perPage p =
      map ((!) ps) [nat ((p - 1) * perPage)..<min (nat (p * perPage)) (length ps)]"
    if "1 \<le> p" for p
  proof -
    have "0 \<le> (p - 1) * perPage"
      using that pos by simp
    moreover have "p * perPage = (p - 1) * perPage + perPage"
      by (simp add: algebra_simps)
    ultimately have "nat ((p - 1) * perPage) + nat perPage = nat (p * perPage)"
      using pos by linarith
    then show ?thesis
      using take_drop_nth_range [of "nat perPage" "nat ((p - 1) * perPage)" ps]
      by (simp add: currentPostsOf_take_drop [OF pos that])
  qed
  have ordered: "min (nat (p * perPage)) (length ps) \<le> nat ((q - 1) * perPage)"
    if "p < q" for p q
  proof -
    from that have "p \<le> q - 1" by simp
    then have "p * perPage \<le> (q - 1) * perPage"
      using pos by (simp add: mult_right_mono)
    then show ?thesis by linarith
  qed
  show ?thesis
    unfolding pages_def [symmetric] using whole total range ordered by blast
qed

theorem page_slices_partition_witness:
  "samplePosts 13 \<noteq> [] \<and> (0::int) < 4
   \<and> totalPagesOf (samplePosts 13) 4 = 4
   \<and> concat (map (currentPostsOf (samplePosts 13) 4) [1..4]) = samplePosts 13
   \<and> sum_list (map (\<lambda>p. length (currentPostsOf (samplePosts 13) 4 p)) [1..4]) = 13
   \<and> currentPostsOf (samplePosts 13) 4 4 = map ((!) (samplePosts 13)) [12..<13]
   \<and> min (nat (3 * 4)) (length (samplePosts 13)) \<le> nat ((4 - 1) * 4)"
proof -
  have nonempty: "samplePosts 13 \<noteq> []"
    by (simp add: samplePosts_nonempty)
  have pos: "(0::int) < 4" by simp
  have pages: "totalPagesOf (samplePosts 13) 4 = 4"
    by (simp add: totalPagesOf_def length_samplePosts math_ceil_div_def)
  note partition = page_slices_partition [OF nonempty pos, unfolded pages]
  have last: "currentPostsOf (samplePosts 13) 4 4 = map ((!) (samplePosts 13)) [12..<13]"
    using partition [THEN conjunct2, THEN conjunct2, THEN conjunct1, rule_format, of 4]
    by (simp add: length_samplePosts)
  have ordered: "min (nat (3 * 4)) (length (samplePosts 13)) \<le> nat ((4 - 1) * 4)"
    using partition [THEN conjunct2, THEN conjunct2, THEN conjunct2, rule_format, of 3 4]
    by simp
  show ?thesis
    using nonempty pages partition last ordered by (simp add: length_samplePosts)
qed

section \<open>Completion of the fetch\<close>

lemma js_slice_first: "js_slice xs 0 (int n) = take n xs"
  unfolding js_slice_def Let_def by (auto simp: min_def)

lemma fetchPosts_rejected:
  "fetchPosts (Inl err) st =
     st\<lparr>error := Some (case err of ErrorInstance message \<Rightarrow> message
                             | NotAnError \<Rightarrow> js_lit ''An error occurred''),
        loading := False\<rparr>"
  by (simp add: fetchPosts_def fetchTry_def)

lemma fetchPosts_not_ok:
  "\<not> ok response \<Longrightarrow>
   fetchPosts (Inr response) st =
     st\<lparr>error := Some (js_lit ''Failed to fetch posts''), loading := False\<rparr>"
  by (simp add: fetchPosts_def fetchTry_def)

lemma fetchPosts_json_rejected:
  "ok response \<Longrightarrow> json response = Inl err \<Longrightarrow>
   fetchPosts (Inr response) st =
     st\<lparr>error := Some (case err of ErrorInstance message \<Rightarrow> message
                             | NotAnError \<Rightarrow> js_lit ''An error occurred''),
        loading := False\<rparr>"
  by (simp add: fetchPosts_def fetchTry_def)

lemma fetchPosts_success:
  "ok response \<Longrightarrow> json response = Inr data \<Longrightarrow>
   fetchPosts (Inr response) st = st\<lparr>posts := take 100 data, loading := False\<rparr>"
  using js_slice_first [of data 100] by (simp add: fetchPosts_def fetchTry_def)

lemma fetchPosts_cases:
  "(\<exists>data. fetchPosts outcome st = st\<lparr>posts := take 100 data, loading := False\<rparr>)
   \<or> (\<exists>message. fetchPosts outcome st = st\<lparr>error := Some message, loading := False\<rparr>)"
proof (cases outcome)
  case (Inl err)
  then show ?thesis using fetchPosts_rejected [of err st] by blast
next
  case (Inr response)
  show ?thesis
  proof (cases "ok response")
    case False
    then show ?thesis using Inr fetchPosts_not_ok [of response st] by blast
  next
    case True
    show ?thesis
    proof (cases "json response")
      case (Inl err)
      then show ?thesis
        using True Inr fetchPosts_json_rejected [of response err st] by blast
    next
      case (Inr data)
      then show ?thesis
        using True \<open>outcome = Inr response\<close> fetchPosts_success [of response data st] by blast
    qed
  qed
qed

lemma totalPagesOf_wide_le_narrow: "totalPagesOf ps 8 \<le> totalPagesOf ps 4"
  unfolding totalPagesOf_def math_ceil_div_def by linarith

lemma totalPagesOf_pos_iff: "0 < perPage \<Longrightarrow> 1 \<le> totalPagesOf ps perPage \<longleftrightarrow> ps \<noteq> []"
  by (simp add: totalPagesOf_def math_ceil_div_pos_iff)

lemma totalPages_le_narrow: "totalPages st \<le> totalPagesOf (posts st) 4"
  by (simp add: totalPages_def postsPerPage_def totalPagesOf_wide_le_narrow)

lemma reachable_invariant:
  "reachable st \<Longrightarrow>
     1 \<le> currentPage st
     \<and> currentPage st \<le> max 1 (totalPagesOf (posts st) 4)
     \<and> length (posts st) \<le> 100
     \<and> (loading st \<longrightarrow> posts st = [])"
proof (induction rule: reachable.induct)
  case mount
  show ?case by (simp add: initialState_def)
next
  case (resize st innerWidth)
  then show ?case by (simp add: checkMobile_def)
next
  case (fetched st outcome)
  then have empty: "posts st = []"
    by simp
  have first: "currentPage st = 1"
    using fetched.IH by (simp add: empty totalPagesOf_def math_ceil_div_def)
  from fetchPosts_cases [of outcome st] show ?case
  proof (elim disjE exE)
    fix data
    assume "fetchPosts outcome st = st\<lparr>posts := take 100 data, loading := False\<rparr>"
    then show ?thesis by (simp add: first)
  next
    fix message
    assume "fetchPosts outcome st = st\<lparr>error := Some message, loading := False\<rparr>"
    then show ?thesis by (simp add: first empty)
  qed
next
  case (navigate st page)
  show ?case
  proof (cases "page \<ge> 1 \<and> page \<le> totalPages st")
    case True
    moreover have "loading st \<longrightarrow> totalPages st = 0"
      using navigate.IH by (auto simp: totalPages_def totalPagesOf_def math_ceil_div_def)
    ultimately show ?thesis
      using navigate.IH totalPages_le_narrow [of st]
      by (auto simp: handlePageChange_def)
  next
    case False
    then show ?thesis
      using navigate.IH by (auto simp: handlePageChange_def)
  qed
qed

lemma pageInRange_narrow:
  assumes "1 \<le> currentPage st" "currentPage st \<le> max 1 (totalPagesOf (posts st) 4)"
    and "isMobile st"
  shows "pageInRange st"
  using assms by (auto simp: pageInRange_def totalPages_def postsPerPage_def)

subsection \<open>A run of the component\<close>

lemma take_samplePosts: "k \<le> n \<Longrightarrow> take k (samplePosts n) = samplePosts k"
proof -
  assume "k \<le> n"
  then have "take k [1..int n] = [1..int k]"
    by (intro nth_equalityI) auto
  then show ?thesis
    by (simp add: samplePosts_def take_map)
qed

lemma handlePageChange_browsing:
  "1 \<le> page \<Longrightarrow> page \<le> totalPages (browsing n page' mobile) \<Longrightarrow>
   fst (handlePageChange page (browsing n page' mobile)) = browsing n page mobile"
  by (simp add: handlePageChange_def browsing_def)

lemma checkMobile_browsing:
  "checkMobile innerWidth (browsing n page mobile) = browsing n page (innerWidth \<le> 768)"
  by (simp add: checkMobile_def browsing_def)

lemma fetchPosts_sample:
  "n \<le> 100 \<Longrightarrow>
   fetchPosts (Inr \<lparr>ok = True, json = Inr (samplePosts n)\<rparr>) (checkMobile innerWidth initialState)
     = browsing n 1 (innerWidth \<le> 768)"
  using fetchPosts_success [of "\<lparr>ok = True, json = Inr (samplePosts n)\<rparr>" "samplePosts n"]
  by (simp add: length_samplePosts checkMobile_def initialState_def browsing_def)

lemma reachable_narrow_13_page_4: "reachable (browsing 13 4 True)"
proof -
  have pages: "totalPages (browsing 13 page True) = 4" for page
    by (simp add: totalPages_browsing math_ceil_div_def)
  have "reachable (checkMobile 500 initialState)"
    by (rule reachable.resize [OF reachable.mount])
  moreover have "loading (checkMobile 500 initialState)"
    by (simp add: checkMobile_def initialState_def)
  ultimately have
    "reachable (fetchPosts (Inr \<lparr>ok = True, json = Inr (samplePosts 13)\<rparr>)
                 (checkMobile 500 initialState))"
    by (rule reachable.fetched)
  then have "reachable (browsing 13 1 True)"
    by (simp add: fetchPosts_sample)
  then have "reachable (fst (handlePageChange 2 (browsing 13 1 True)))"
    by (rule reachable.navigate)
  then have "reachable (browsing 13 2 True)"
    by (simp add: handlePageChange_browsing pages)
  then have "reachable (fst (handlePageChange 3 (browsing 13 2 True)))"
    by (rule reachable.navigate)
  then have "reachable (browsing 13 3 True)"
    by (simp add: handlePageChange_browsing pages)
  then have "reachable (fst (handlePageChange 4 (browsing 13 3 True)))"
    by (rule reachable.navigate)
  then show ?thesis
    by (simp add: handlePageChange_browsing pages)
qed

section \<open>The current page in reachable states\<close>

text \<open>
  C3, as amended. In every reachable state \<open>currentPage \<ge> 1\<close> and, when there are posts,
  \<open>currentPage\<close> is at most the page count of the narrow layout, \<open>ceil(posts.length / 4)\<close>.
  So with a narrow viewport \<open>currentPage\<close> lies in \<open>[1, totalPages]\<close> whenever
  \<open>totalPages \<ge> 1\<close>. This range property is preserved by page navigation, holds after the
  completion of the fetch, and is preserved by every resize except one from the narrow to
  the wide layout.
\<close>

theorem currentPage_range_reachable:
  assumes "reachable st"
  shows "1 \<le> currentPage st
    \<and> (posts st \<noteq> [] \<longrightarrow> currentPage st \<le> totalPagesOf (posts st) 4)
    \<and> (isMobile st \<longrightarrow> pageInRange st)
    \<and> (pageInRange st \<longrightarrow> pageInRange (fst (handlePageChange page st)))
    \<and> (loading st \<longrightarrow> pageInRange (fetchPosts outcome st))
    \<and> (pageInRange st \<and> (isMobile st \<longrightarrow> innerWidth \<le> 768) \<longrightarrow>
          pageInRange (checkMobile innerWidth st))"
proof -
  note inv = reachable_invariant [OF assms]
  have low: "1 \<le> currentPage st"
    using inv by simp
  have high: "currentPage st \<le> max 1 (totalPagesOf (posts st) 4)"
    using inv by simp
  have "posts st \<noteq> [] \<longrightarrow> currentPage st \<le> totalPagesOf (posts st) 4"
  proof
    assume "posts st \<noteq> []"
    then have "1 \<le> totalPagesOf (posts st) 4"
      by (simp add: totalPagesOf_def math_ceil_div_pos_iff)
    with high show "currentPage st \<le> totalPagesOf (posts st) 4" by simp
  qed
  moreover have "isMobile st \<longrightarrow> pageInRange st"
    using pageInRange_narrow [OF low high] by simp
  moreover have "pageInRange st \<longrightarrow> pageInRange (fst (handlePageChange page st))"
    by (auto simp: pageInRange_def handlePageChange_def totalPages_def postsPerPage_def)
  moreover have "loading st \<longrightarrow> pageInRange (fetchPosts outcome st)"
  proof
    assume "loading st"
    then have "posts st = []" using inv by simp
    then have "currentPage st = 1"
      using low high by (simp add: totalPagesOf_def math_ceil_div_def)
    moreover have "currentPage (fetchPosts outcome st) = currentPage st"
      using fetchPosts_cases [of outcome st] by auto
    ultimately show "pageInRange (fetchPosts outcome st)"
      by (simp add: pageInRange_def)
  qed
  moreover have "pageInRange st \<and> (isMobile st \<longrightarrow> innerWidth \<le> 768) \<longrightarrow>
          pageInRange (checkMobile innerWidth st)"
    using totalPagesOf_wide_le_narrow [of "posts st"]
    by (auto simp: pageInRange_def checkMobile_def totalPages_def postsPerPage_def
        totalPagesOf_pos_iff)
  ultimately show ?thesis
    using low by blast
qed

theorem currentPage_range_reachable_witness:
  "reachable (browsing 13 4 True)
   \<and> 1 \<le> currentPage (browsing 13 4 True)
   \<and> posts (browsing 13 4 True) \<noteq> []
   \<and> currentPage (browsing 13 4 True) \<le> totalPagesOf (posts (browsing 13 4 True)) 4
   \<and> isMobile (browsing 13 4 True)
   \<and> pageInRange (browsing 13 4 True)
   \<and> pageInRange (fst (handlePageChange 2 (browsing 13 4 True)))
   \<and> pageInRange (checkMobile 500 (browsing 13 4 True))
   \<and> reachable initialState
   \<and> loading initialState
   \<and> pageInRange (fetchPosts (Inr \<lparr>ok = True, json = Inr (samplePosts 13)\<rparr>) initialState)"
proof -
  note browse = currentPage_range_reachable [OF reachable_narrow_13_page_4]
  note start = currentPage_range_reachable [OF reachable.mount]
  have nonempty: "posts (browsing 13 4 True) \<noteq> []"
    by (simp add: browsing_fields samplePosts_nonempty)
  have narrow: "isMobile (browsing 13 4 True)"
    by (simp add: browsing_fields)
  have pending: "loading initialState"
    by (simp add: initialState_def)
  have inRange: "pageInRange (browsing 13 4 True)"
    using browse [of 2 "Inl NotAnError" 500] narrow by blast
  have "pageInRange (fst (handlePageChange 2 (browsing 13 4 True)))"
    using browse [of 2 "Inl NotAnError" 500] inRange by blast
  moreover have "pageInRange (checkMobile 500 (browsing 13 4 True))"
    using browse [of 2 "Inl NotAnError" 500] inRange by simp
  moreover have
    "pageInRange (fetchPosts (Inr \<lparr>ok = True, json = Inr (samplePosts 13)\<rparr>) initialState)"
    using start [of 2 "Inr \<lparr>ok = True, json = Inr (samplePosts 13)\<rparr>" 500] pending by blast
  moreover have "1 \<le> currentPage (browsing 13 4 True)
      \<and> currentPage (browsing 13 4 True) \<le> totalPagesOf (posts (browsing 13 4 True)) 4"
    using browse [of 2 "Inl NotAnError" 500] nonempty by blast
  ultimately show ?thesis
    using reachable_narrow_13_page_4 reachable.mount nonempty narrow pending inRange by blast
qed

text \<open>
  The claim C3 as stated fails at a resize: after 13 posts are fetched in the narrow layout
  and the user has gone to page 4 of 4, widening the window leaves 2 pages and the current
  page 4.
\<close>

theorem resize_to_wide_breaks_page_range:
  "reachable (browsing 13 4 True)
   \<and> pageInRange (browsing 13 4 True)
   \<and> reachable (checkMobile 1024 (browsing 13 4 True))
   \<and> 1 \<le> totalPages (checkMobile 1024 (browsing 13 4 True))
   \<and> totalPages (checkMobile 1024 (browsing 13 4 True))
        < currentPage (checkMobile 1024 (browsing 13 4 True))
   \<and> \<not> pageInRange (checkMobile 1024 (browsing 13 4 True))"
proof -
  have narrow: "totalPages (browsing 13 4 True) = 4"
    by (simp add: totalPages_browsing math_ceil_div_def)
  have wide: "totalPages (browsing 13 4 False) = 2"
    by (simp add: totalPages_browsing math_ceil_div_def)
  have "reachable (checkMobile 1024 (browsing 13 4 True))"
    by (rule reachable.resize [OF reachable_narrow_13_page_4])
  then show ?thesis
    using reachable_narrow_13_page_4
    by (simp add: checkMobile_browsing pageInRange_def narrow wide browsing_fields)
qed

section \<open>Outcomes of the fetch\<close>

text \<open>
  C7. When the response has a non-success status, \<open>error\<close> becomes the fixed message
  \<open>Failed to fetch posts\<close>, \<open>loading\<close> becomes false and nothing else changes, so \<open>posts\<close>
  stays empty when the pending fetch completes; when \<open>fetch\<close> or \<open>json\<close> throws, \<open>error\<close>
  becomes the message of the thrown \<open>Error\<close>, or \<open>An error occurred\<close> when the thrown value
  is not an \<open>Error\<close>.
\<close>

theorem fetchPosts_failure:
  "(\<not> ok response \<longrightarrow>
      fetchPosts (Inr response) st =
        st\<lparr>error := Some (js_lit ''Failed to fetch posts''), loading := False\<rparr>)
   \<and> (reachable st \<and> loading st \<and> \<not> ok response \<longrightarrow>
        posts (fetchPosts (Inr response) st) = [])
   \<and> fetchPosts (Inl (ErrorInstance message)) st =
        st\<lparr>error := Some message, loading := False\<rparr>
   \<and> fetchPosts (Inl NotAnError) st =
        st\<lparr>error := Some (js_lit ''An error occurred''), loading := False\<rparr>
   \<and> (ok response \<and> json response = Inl (ErrorInstance message) \<longrightarrow>
        fetchPosts (Inr response) st = st\<lparr>error := Some message, loading := False\<rparr>)
   \<and> (ok response \<and> json response = Inl NotAnError \<longrightarrow>
        fetchPosts (Inr response) st =
          st\<lparr>error := Some (js_lit ''An error occurred''), loading := False\<rparr>)"
proof -
  have "reachable st \<and> loading st \<and> \<not> ok response \<longrightarrow>
        posts (fetchPosts (Inr response) st) = []"
    using reachable_invariant [of st] by (auto simp: fetchPosts_not_ok)
  moreover have "\<not> ok response \<longrightarrow>
      fetchPosts (Inr response) st =
        st\<lparr>error := Some (js_lit ''Failed to fetch posts''), loading := False\<rparr>"
    by (simp add: fetchPosts_not_ok)
  moreover have "ok response \<and> json response = Inl (ErrorInstance message) \<longrightarrow>
        fetchPosts (Inr response) st = st\<lparr>error := Some message, loading := False\<rparr>"
    by (simp add: fetchPosts_json_rejected)
  moreover have "ok response \<and> json response = Inl NotAnError \<longrightarrow>
        fetchPosts (Inr response) st =
          st\<lparr>error := Some (js_lit ''An error occurred''), loading := False\<rparr>"
    by (simp add: fetchPosts_json_rejected)
  ultimately show ?thesis
    by (simp add: fetchPosts_rejected)
qed

theorem fetchPosts_failure_witness:
  "\<not> ok \<lparr>ok = False, json = Inr (samplePosts 13)\<rparr>
   \<and> reachable initialState \<and> loading initialState
   \<and> fetchPosts (Inr \<lparr>ok = False, json = Inr (samplePosts 13)\<rparr>) initialState =
       \<lparr>posts = [], loading = False, error = Some (js_lit ''Failed to fetch posts''),
        currentPage = 1, isMobile = False\<rparr>
   \<and> posts (fetchPosts (Inr \<lparr>ok = False, json = Inr (samplePosts 13)\<rparr>) initialState) = []
   \<and> fetchPosts (Inr \<lparr>ok = True, json = Inl (ErrorInstance (js_lit ''Unexpected token''))\<rparr>)
        initialState =
       \<lparr>posts = [], loading = False, error = Some (js_lit ''Unexpected token''),
        currentPage = 1, isMobile = False\<rparr>
   \<and> fetchPosts (Inr \<lparr>ok = True, json = Inl NotAnError\<rparr>) initialState =
       \<lparr>posts = [], loading = False, error = Some (js_lit ''An error occurred''),
        currentPage = 1, isMobile = False\<rparr>"
proof -
  have pending: "loading initialState"
    by (simp add: initialState_def)
  have refused:
    "fetchPosts (Inr \<lparr>ok = False, json = Inr (samplePosts 13)\<rparr>) initialState =
       \<lparr>posts = [], loading = False, error = Some (js_lit ''Failed to fetch posts''),
        currentPage = 1, isMobile = False\<rparr>"
    using fetchPosts_failure [of "\<lparr>ok = False, json = Inr (samplePosts 13)\<rparr>" initialState]
    by (simp add: initialState_def)
  have empty:
    "posts (fetchPosts (Inr \<lparr>ok = False, json = Inr (samplePosts 13)\<rparr>) initialState) = []"
    using fetchPosts_failure [of "\<lparr>ok = False, json = Inr (samplePosts 13)\<rparr>" initialState,
        THEN conjunct2, THEN conjunct1]
      reachable.mount pending
    by simp
  have parse:
    "fetchPosts (Inr \<lparr>ok = True, json = Inl (ErrorInstance (js_lit ''Unexpected token''))\<rparr>)
        initialState =
       \<lparr>posts = [], loading = False, error = Some (js_lit ''Unexpected token''),
        currentPage = 1, isMobile = False\<rparr>"
    using fetchPosts_failure
      [of "\<lparr>ok = True, json = Inl (ErrorInstance (js_lit ''Unexpected token''))\<rparr>"
          initialState "js_lit ''Unexpected token''"]
    by (simp add: initialState_def)
  have other:
    "fetchPosts (Inr \<lparr>ok = True, json = Inl NotAnError\<rparr>) initialState =
       \<lparr>posts = [], loading = False, error = Some (js_lit ''An error occurred''),
        currentPage = 1, isMobile = False\<rparr>"
    using fetchPosts_failure [of "\<lparr>ok = True, json = Inl NotAnError\<rparr>" initialState]
    by (simp add: initialState_def)
  show ?thesis
    using reachable.mount pending refused empty parse other by simp
qed

text \<open>
  C8. After a successful fetch of an array, \<open>posts\<close> holds its first
  \<open>min(100, length)\<close> records in order and \<open>loading\<close> is false; in every reachable state
  \<open>posts\<close> has at most 100 entries; a response of 150 records keeps exactly the first 100.
\<close>

theorem fetchPosts_keeps_first_100:
  "(ok response \<and> json response = Inr data \<longrightarrow>
      posts (fetchPosts (Inr response) st) = take (min 100 (length data)) data
      \<and> loading (fetchPosts (Inr response) st) = False)
   \<and> (reachable st \<longrightarrow> length (posts st) \<le> 100)
   \<and> (ok response \<and> json response = Inr data \<and> length data = 150 \<longrightarrow>
        posts (fetchPosts (Inr response) st) = take 100 data
        \<and> length (posts (fetchPosts (Inr response) st)) = 100)"
proof -
  have "take (min 100 (length data)) data = take 100 data"
    by (simp add: min_def)
  then have "ok response \<and> json response = Inr data \<longrightarrow>
      posts (fetchPosts (Inr response) st) = take (min 100 (length data)) data
      \<and> loading (fetchPosts (Inr response) st) = False"
    by (simp add: fetchPosts_success)
  moreover have "reachable st \<longrightarrow> length (posts st) \<le> 100"
    using reachable_invariant [of st] by blast
  moreover have "ok response \<and> json response = Inr data \<and> length data = 150 \<longrightarrow>
        posts (fetchPosts (Inr response) st) = take 100 data
        \<and> length (posts (fetchPosts (Inr response) st)) = 100"
    by (simp add: fetchPosts_success)
  ultimately show ?thesis by blast
qed

theorem fetchPosts_keeps_first_100_witness:
  "ok \<lparr>ok = True, json = Inr (samplePosts 150)\<rparr>
   \<and> length (samplePosts 150) = 150
   \<and> posts (fetchPosts (Inr \<lparr>ok = True, json = Inr (samplePosts 150)\<rparr>) initialState)
       = samplePosts 100
   \<and> length (posts (fetchPosts (Inr \<lparr>ok = True, json = Inr (samplePosts 150)\<rparr>) initialState))
       = 100
   \<and> posts (fetchPosts (Inr \<lparr>ok = True, json = Inr (samplePosts 13)\<rparr>) initialState)
       = samplePosts 13
   \<and> reachable (browsing 13 4 True)
   \<and> length (posts (browsing 13 4 True)) \<le> 100"
proof -
  have large:
    "posts (fetchPosts (Inr \<lparr>ok = True, json = Inr (samplePosts 150)\<rparr>) initialState)
       = samplePosts 100
     \<and> length (posts (fetchPosts (Inr \<lparr>ok = True, json = Inr (samplePosts 150)\<rparr>) initialState))
       = 100"
    using fetchPosts_keeps_first_100
      [of "\<lparr>ok = True, json = Inr (samplePosts 150)\<rparr>" "samplePosts 150" initialState]
    by (simp add: length_samplePosts take_samplePosts)
  have small:
    "posts (fetchPosts (Inr \<lparr>ok = True, json = Inr (samplePosts 13)\<rparr>) initialState)
       = samplePosts 13"
    using fetchPosts_keeps_first_100
      [of "\<lparr>ok = True, json = Inr (samplePosts 13)\<rparr>" "samplePosts 13" initialState]
    by (simp add: length_samplePosts)
  have bound: "length (posts (browsing 13 4 True)) \<le> 100"
    using fetchPosts_keeps_first_100
      [of "\<lparr>ok = True, json = Inr (samplePosts 13)\<rparr>" "samplePosts 13" "browsing 13 4 True"]
      reachable_narrow_13_page_4
    by blast
  show ?thesis
    using large small bound reachable_narrow_13_page_4 by (simp add: length_samplePosts)
qed

end
